theory Spec2Isabelle
  imports Complex_Main "HOL-Library.Multiset"
begin

section \<open>Data model\<close>

text \<open>
  The Go structs of the chunk store. A chunk refers to its document through a pointer;
  the code only ever reads the document's path through it and never changes a path, so
  the chunk carries the document by value. The type variable \<open>'f\<close> stands for Go's
  \<open>float64\<close>. Go's \<open>int\<close> is modelled by \<open>int\<close>; strings are byte strings.
\<close>

record Document =
  Path :: string

record 'f Chunk =
  Document :: Document
  Text :: string
  Embedding :: "'f list"

record 'f Grokker =
  Root :: string
  Documents :: "Document list"
  Chunks :: "'f Chunk list"
  MaxChunkSize :: int
  CharsPerToken :: 'f

section \<open>RemoveDocument and GC\<close>

text \<open>The loop of RemoveDocument looks for the first index whose document has the path.\<close>

fun findPath :: "string \<Rightarrow> Document list \<Rightarrow> nat \<Rightarrow> nat option" where
  "findPath p [] i = None"
| "findPath p (d # ds) i = (if Path d = p then Some i else findPath p ds (Suc i))"

definition RemoveDocument :: "'f Grokker \<Rightarrow> Document \<Rightarrow> 'f Grokker" where
  "RemoveDocument g doc =
     (case findPath (Path doc) (Documents g) 0 of
        None \<Rightarrow> g
      | Some i \<Rightarrow> g\<lparr>Documents := take i (Documents g) @ drop (i + 1) (Documents g)\<rparr>)"

fun referenced :: "Document list \<Rightarrow> 'f Chunk \<Rightarrow> bool" where
  "referenced [] chunk = False"
| "referenced (doc # docs) chunk =
     (if Path doc = Path (Document chunk) then True else referenced docs chunk)"

fun GC_loop :: "Document list \<Rightarrow> 'f Chunk list \<Rightarrow> 'f Chunk list \<Rightarrow> 'f Chunk list" where
  "GC_loop docs [] newChunks = newChunks"
| "GC_loop docs (chunk # chunks) newChunks =
     GC_loop docs chunks (if referenced docs chunk then newChunks @ [chunk] else newChunks)"

definition GC :: "'f Grokker \<Rightarrow> 'f Grokker" where
  "GC g = g\<lparr>Chunks := GC_loop (Documents g) (Chunks g) []\<rparr>"


section \<open>The world outside the store\<close>

text \<open>
  Errors are values. \<open>IOError\<close> is a failed file-system call, \<open>APIError\<close> a failed call
  of a remote client (both raised through \<open>Ck\<close>), and \<open>RuntimePanic\<close> is a Go run-time
  panic (index or slice bounds out of range).
\<close>

datatype error = IOError | APIError | RuntimePanic

datatype stat_result = StatNotExist | StatError | ModTime int

datatype role = RoleSystem | RoleUser | RoleAssistant

record ChatCompletionMessage =
  Role :: role
  Content :: string

text \<open>
  The file system and the two remote clients are parameters of every operation that
  uses them. A chat response is represented by the contents of its choices.
\<close>

record 'f env =
  os_Stat :: "string \<Rightarrow> stat_result"
  ReadFile :: "string \<Rightarrow> error + string"
  embeddingClient :: "string list \<Rightarrow> error + 'f list list"
  chatClient :: "ChatCompletionMessage list \<Rightarrow> error + string list"

text \<open>
  What the code takes from the Go run time: the arithmetic and the comparison of
  \<open>float64\<close>, and \<open>sort.Slice\<close>, which is given the comparison of two elements.
\<close>

record 'f Sim =
  sim_chunk :: "'f Chunk"
  sim_score :: 'f

record 'f runtime =
  f_zero :: 'f
  f_add :: "'f \<Rightarrow> 'f \<Rightarrow> 'f"
  f_mul :: "'f \<Rightarrow> 'f \<Rightarrow> 'f"
  f_div :: "'f \<Rightarrow> 'f \<Rightarrow> 'f"
  f_sqrt :: "'f \<Rightarrow> 'f"
  f_gt :: "'f \<Rightarrow> 'f \<Rightarrow> bool"
  sort_Slice :: "('f Sim \<Rightarrow> 'f Sim \<Rightarrow> bool) \<Rightarrow> 'f Sim list \<Rightarrow> 'f Sim list"

definition New :: "'f \<Rightarrow> 'f Grokker" where
  "New cpt = \<lparr>Root = [], Documents = [], Chunks = [], MaxChunkSize = 16384, CharsPerToken = cpt\<rparr>"

section \<open>CreateEmbeddings\<close>

text \<open>
  The result is paired with the list of the batches sent to the client, in order. A
  failed batch ends the call with the error.
\<close>

function CreateEmbeddings_loop ::
  "(string list \<Rightarrow> error + 'f list list) \<Rightarrow> string list \<Rightarrow> nat \<Rightarrow> 'f list list \<Rightarrow>
   string list list \<Rightarrow> string list list \<times> (error + 'f list list)" where
  "CreateEmbeddings_loop c texts i embeddings reqs =
     (if i < length texts then
        (let endi = (if i + 100 > length texts then length texts else i + 100);
             req = take (endi - i) (drop i texts)
         in case c req of
              Inl e \<Rightarrow> (reqs @ [req], Inl e)
            | Inr res \<Rightarrow> CreateEmbeddings_loop c texts (i + 100) (embeddings @ res) (reqs @ [req]))
      else (reqs, Inr embeddings))"
  by pat_completeness auto
termination
  by (relation "measure (\<lambda>(c, texts, i, embeddings, reqs). length texts - i)") auto

definition CreateEmbeddings ::
  "'f env \<Rightarrow> string list \<Rightarrow> string list list \<times> (error + 'f list list)" where
  "CreateEmbeddings env texts = CreateEmbeddings_loop (embeddingClient env) texts 0 [] []"

section \<open>chunkStrings\<close>

text \<open>\<open>strings.Split\<close> with the separator of two newlines.\<close>

fun Split_nn :: "string \<Rightarrow> string list" where
  "Split_nn [] = [[]]"
| "Split_nn [c] = [[c]]"
| "Split_nn (c # d # s) =
     (if c = CHR 0x0A \<and> d = CHR 0x0A then [] # Split_nn s
      else (case Split_nn (d # s) of p # ps \<Rightarrow> (c # p) # ps | [] \<Rightarrow> [[c]]))"

text \<open>
  The inner loop cuts one paragraph. With a maximum chunk size of zero it appends the
  empty string for ever, so the loop is a partial function and \<open>None\<close> is not returning;
  with a negative size the slice expression panics.
\<close>

partial_function (option) splitParagraph ::
  "int \<Rightarrow> string \<Rightarrow> string list \<Rightarrow> (error + string list) option" where
  "splitParagraph m paragraph c =
     (if length paragraph > 0 then
        (if int (length paragraph) > m then
           (if m < 0 then Some (Inl RuntimePanic)
            else splitParagraph m (drop (nat m) paragraph) (c @ [take (nat m) paragraph]))
         else splitParagraph m [] (c @ [paragraph]))
      else Some (Inr c))"

declare splitParagraph.simps [code]

fun chunkParagraphs :: "int \<Rightarrow> string list \<Rightarrow> string list \<Rightarrow> (error + string list) option" where
  "chunkParagraphs m [] c = Some (Inr c)"
| "chunkParagraphs m (paragraph # paragraphs) c =
     (case splitParagraph m paragraph c of
        None \<Rightarrow> None
      | Some (Inl e) \<Rightarrow> Some (Inl e)
      | Some (Inr c') \<Rightarrow> chunkParagraphs m paragraphs c')"

definition chunkStrings :: "'f env \<Rightarrow> 'f Grokker \<Rightarrow> Document \<Rightarrow> (error + string list) option" where
  "chunkStrings env g doc =
     (case ReadFile env (Path doc) of
        Inl e \<Rightarrow> Some (Inl e)
      | Inr txt \<Rightarrow> chunkParagraphs (MaxChunkSize g) (Split_nn txt) [])"

section \<open>UpdateDocument and AddDocument\<close>

text \<open>
  The search for an old chunk with the text of a candidate. The code removes from the
  working list the element that is the chunk found, which is the element at the index
  found.
\<close>

fun findText :: "string \<Rightarrow> 'f Chunk list \<Rightarrow> nat \<Rightarrow> nat option" where
  "findText s [] i = None"
| "findText s (c # cs) i = (if Text c = s then Some i else findText s cs (Suc i))"

fun diff_loop ::
  "string list \<Rightarrow> 'f Chunk list \<Rightarrow> string list \<Rightarrow> bool \<Rightarrow> 'f Chunk list \<times> string list \<times> bool" where
  "diff_loop [] oldChunks newChunkStrings updated = (oldChunks, newChunkStrings, updated)"
| "diff_loop (chunkString # rest) oldChunks newChunkStrings updated =
     (case findText chunkString oldChunks 0 of
        Some i \<Rightarrow> diff_loop rest (take i oldChunks @ drop (i + 1) oldChunks) newChunkStrings updated
      | None \<Rightarrow> diff_loop rest oldChunks (newChunkStrings @ [chunkString]) True)"

text \<open>
  The last loop appends one chunk for each new text; reading an embedding that the
  client did not return panics, after the chunks before it have been appended.
\<close>

fun appendChunks ::
  "Document \<Rightarrow> string list \<Rightarrow> 'f list list \<Rightarrow> 'f Chunk list \<Rightarrow> 'f Chunk list \<times> error option" where
  "appendChunks doc [] embeddings chunks = (chunks, None)"
| "appendChunks doc (text # texts) [] chunks = (chunks, Some RuntimePanic)"
| "appendChunks doc (text # texts) (em # embeddings) chunks =
     appendChunks doc texts embeddings
       (chunks @ [\<lparr>Document = doc, Text = text, Embedding = em\<rparr>])"

definition UpdateDocument ::
  "'f env \<Rightarrow> 'f Grokker \<Rightarrow> Document \<Rightarrow> ('f Grokker \<times> string list list \<times> (error + bool)) option" where
  "UpdateDocument env g doc =
     (case chunkStrings env g doc of
        None \<Rightarrow> None
      | Some (Inl e) \<Rightarrow> Some (g, [], Inl e)
      | Some (Inr cs) \<Rightarrow>
          (let oldChunks = filter (\<lambda>chunk. Path (Document chunk) = Path doc) (Chunks g);
               (oldChunks', newChunkStrings, updated) = diff_loop cs oldChunks [] False;
               (reqs, r) = CreateEmbeddings env newChunkStrings
           in case r of
                Inl e \<Rightarrow> Some (g, reqs, Inl e)
              | Inr embeddings \<Rightarrow>
                  (case appendChunks doc newChunkStrings embeddings (Chunks g) of
                     (chunks', Some e) \<Rightarrow> Some (g\<lparr>Chunks := chunks'\<rparr>, reqs, Inl e)
                   | (chunks', None) \<Rightarrow> Some (g\<lparr>Chunks := chunks'\<rparr>, reqs, Inr updated))))"

definition AddDocument ::
  "'f env \<Rightarrow> 'f Grokker \<Rightarrow> string \<Rightarrow> ('f Grokker \<times> string list list \<times> error option) option" where
  "AddDocument env g path =
     (let doc = \<lparr>Path = path\<rparr>;
          g1 = (case findPath (Path doc) (Documents g) 0 of
                  None \<Rightarrow> g\<lparr>Documents := Documents g @ [doc]\<rparr>
                | Some i \<Rightarrow> g)
      in case UpdateDocument env g1 doc of
           None \<Rightarrow> None
         | Some (g2, reqs, Inl e) \<Rightarrow> Some (g2, reqs, Some e)
         | Some (g2, reqs, Inr updated) \<Rightarrow> Some (g2, reqs, None))"

section \<open>UpdateEmbeddings\<close>

text \<open>
  The range loop reads the length and the backing array of \<open>g.Documents\<close> once, and
  then slot \<open>i\<close> of that array at each round. RemoveDocument appends in place: it
  overwrites the first slots of the same array with the shortened list and leaves the
  later slots as they were. \<open>arr\<close> is the array, \<open>n\<close> the length read at the start.
\<close>

function UpdateEmbeddings_loop ::
  "'f env \<Rightarrow> int \<Rightarrow> nat \<Rightarrow> Document list \<Rightarrow> nat \<Rightarrow> 'f Grokker \<Rightarrow> bool \<Rightarrow>
   ('f Grokker \<times> (error + bool)) option" where
  "UpdateEmbeddings_loop env lastUpdate n arr i g update =
     (if i < n then
        (let doc = arr ! i in
         case os_Stat env (Path doc) of
           StatNotExist \<Rightarrow>
             (let g' = RemoveDocument g doc;
                  arr' = Documents g' @ drop (length (Documents g')) arr
              in UpdateEmbeddings_loop env lastUpdate n arr' (Suc i) g' True)
         | StatError \<Rightarrow> Some (g, Inl IOError)
         | ModTime t \<Rightarrow>
             if t > lastUpdate then
               (case UpdateDocument env g doc of
                  None \<Rightarrow> None
                | Some (g', reqs, Inl e) \<Rightarrow> Some (g', Inl e)
                | Some (g', reqs, Inr updated) \<Rightarrow>
                    UpdateEmbeddings_loop env lastUpdate n arr (Suc i) g' (update \<or> updated))
             else UpdateEmbeddings_loop env lastUpdate n arr (Suc i) g update)
      else Some (GC g, Inr update))"
  by pat_completeness auto
termination
  by (relation "measure (\<lambda>(env, lastUpdate, n, arr, i, g, update). n - i)") auto

definition UpdateEmbeddings ::
  "'f env \<Rightarrow> 'f Grokker \<Rightarrow> string \<Rightarrow> ('f Grokker \<times> (error + bool)) option" where
  "UpdateEmbeddings env g grokfn =
     (case os_Stat env grokfn of
        ModTime lastUpdate \<Rightarrow>
          UpdateEmbeddings_loop env lastUpdate (length (Documents g)) (Documents g) 0 g False
      | _ \<Rightarrow> Some (g, Inl IOError))"


section \<open>Similarity and SimilarChunks\<close>

text \<open>
  The loop of Similarity ranges over the indices of \<open>a\<close> and reads \<open>b\<close> at each of them:
  it panics when \<open>b\<close> is shorter than \<open>a\<close>.
\<close>

fun Similarity_loop ::
  "'f runtime \<Rightarrow> 'f list \<Rightarrow> 'f list \<Rightarrow> 'f \<times> 'f \<times> 'f \<Rightarrow> error + ('f \<times> 'f \<times> 'f)" where
  "Similarity_loop R [] b acc = Inr acc"
| "Similarity_loop R (x # a) [] acc = Inl RuntimePanic"
| "Similarity_loop R (x # a) (y # b) (dot, magA, magB) =
     Similarity_loop R a b
       (f_add R dot (f_mul R x y), f_add R magA (f_mul R x x), f_add R magB (f_mul R y y))"

definition Similarity :: "'f runtime \<Rightarrow> 'f list \<Rightarrow> 'f list \<Rightarrow> error + 'f" where
  "Similarity R a b =
     (case Similarity_loop R a b (f_zero R, f_zero R, f_zero R) of
        Inl e \<Rightarrow> Inl e
      | Inr (dot, magA, magB) \<Rightarrow> Inr (f_div R dot (f_mul R (f_sqrt R magA) (f_sqrt R magB))))"

fun sims_loop ::
  "'f runtime \<Rightarrow> 'f list \<Rightarrow> 'f Chunk list \<Rightarrow> 'f Sim list \<Rightarrow> error + 'f Sim list" where
  "sims_loop R embedding [] sims = Inr sims"
| "sims_loop R embedding (chunk # chunks) sims =
     (case Similarity R embedding (Embedding chunk) of
        Inl e \<Rightarrow> Inl e
      | Inr score \<Rightarrow>
          sims_loop R embedding chunks (sims @ [\<lparr>sim_chunk = chunk, sim_score = score\<rparr>]))"

function topK_loop :: "'f Sim list \<Rightarrow> int \<Rightarrow> nat \<Rightarrow> 'f Chunk list \<Rightarrow> 'f Chunk list" where
  "topK_loop sims K i chunks =
     (if int i < K \<and> i < length sims
      then topK_loop sims K (Suc i) (chunks @ [sim_chunk (sims ! i)])
      else chunks)"
  by pat_completeness auto
termination
  by (relation "measure (\<lambda>(sims, K, i, chunks). length sims - i)") auto

definition SimilarChunks ::
  "'f runtime \<Rightarrow> 'f Grokker \<Rightarrow> 'f list \<Rightarrow> int \<Rightarrow> error + 'f Chunk list" where
  "SimilarChunks R g embedding K =
     (case sims_loop R embedding (Chunks g) [] of
        Inl e \<Rightarrow> Inl e
      | Inr sims0 \<Rightarrow>
          (let sims = sort_Slice R (\<lambda>a b. f_gt R (sim_score a) (sim_score b)) sims0;
               K' = (if K = 0 then int (length sims) else K)
           in Inr (topK_loop sims K' 0 [])))"

definition FindChunks ::
  "'f env \<Rightarrow> 'f runtime \<Rightarrow> 'f Grokker \<Rightarrow> string \<Rightarrow> int \<Rightarrow> error + 'f Chunk list" where
  "FindChunks env R g query K =
     (case snd (CreateEmbeddings env [query]) of
        Inl e \<Rightarrow> Inl e
      | Inr [] \<Rightarrow> Inl RuntimePanic
      | Inr (queryEmbedding # _) \<Rightarrow> SimilarChunks R g queryEmbedding K)"

section \<open>Answer\<close>

definition promptTmpl :: string where
  "promptTmpl = ''{{.Question}}'' @ [CHR 0x0A, CHR 0x0A] @ ''Context:'' @ [CHR 0x0A] @ ''{{.Context}}''"

text \<open>
  \<open>int(float64(g.MaxChunkSize) * 0.5)\<close>: the half, rounded towards zero (the conversion
  to \<open>float64\<close> is exact below \<open>2 ^ 53\<close> in absolute value).
\<close>

definition maxSize :: "'f Grokker \<Rightarrow> int" where
  "maxSize g = (if 0 \<le> MaxChunkSize g then MaxChunkSize g div 2 else - ((- MaxChunkSize g) div 2))"

fun context_loop :: "int \<Rightarrow> 'f Chunk list \<Rightarrow> string \<Rightarrow> string" where
  "context_loop mx [] context = context"
| "context_loop mx (chunk # chunks) context =
     (let context' = context @ Text chunk @ [CHR 0x0A, CHR 0x0A]
      in if int (length context') + int (length promptTmpl) > mx then context'
         else context_loop mx chunks context')"

definition chat :: "'f env \<Rightarrow> ChatCompletionMessage list \<Rightarrow> error + string list" where
  "chat env messages =
     (case chatClient env messages of
        Inl e \<Rightarrow> Inl e
      | Inr [] \<Rightarrow> Inl RuntimePanic
      | Inr (c # cs) \<Rightarrow> Inr (c # cs))"

text \<open>
  Generate returns the response and the query string, which the code never assigns. The
  model also returns the message lists sent to the chat client, in order.
\<close>

definition Generate ::
  "'f env \<Rightarrow> string \<Rightarrow> string \<Rightarrow> bool \<Rightarrow>
   ChatCompletionMessage list list \<times> (error + string list \<times> string)" where
  "Generate env question ctxt global =
     (let messages = [\<lparr>Role = RoleSystem, Content = ''You are a helpful assistant.''\<rparr>];
          local = [\<lparr>Role = RoleUser, Content = ctxt\<rparr>,
                   \<lparr>Role = RoleAssistant, Content = ''Great! I've read the context.''\<rparr>,
                   \<lparr>Role = RoleUser, Content = question\<rparr>]
      in if global then
           (let messages1 = messages @ [\<lparr>Role = RoleUser, Content = question\<rparr>]
            in case chat env messages1 of
                 Inl e \<Rightarrow> ([messages1], Inl e)
               | Inr [] \<Rightarrow> ([messages1], Inl RuntimePanic)
               | Inr (c # cs) \<Rightarrow>
                   (let messages2 = messages1 @ [\<lparr>Role = RoleAssistant, Content = c\<rparr>] @ local
                    in ([messages1, messages2],
                        case chat env messages2 of Inl e \<Rightarrow> Inl e | Inr resp \<Rightarrow> Inr (resp, []))))
         else
           (let messages2 = messages @ local
            in ([messages2],
                case chat env messages2 of Inl e \<Rightarrow> Inl e | Inr resp \<Rightarrow> Inr (resp, []))))"

definition Answer ::
  "'f env \<Rightarrow> 'f runtime \<Rightarrow> 'f Grokker \<Rightarrow> string \<Rightarrow> bool \<Rightarrow>
   ChatCompletionMessage list list \<times> (error + string list \<times> string)" where
  "Answer env R g question global =
     (case FindChunks env R g question 0 of
        Inl e \<Rightarrow> ([], Inl e)
      | Inr chunks \<Rightarrow> Generate env question (context_loop (maxSize g) chunks []) global)"


section \<open>Specification-side notions\<close>

text \<open>
  The batches of the specification: a list cut into successive pieces of a hundred
  items, the last one shorter when the length is not a multiple of a hundred.
\<close>

function batches100 :: "'a list \<Rightarrow> 'a list list" where
  "batches100 xs = (if xs = [] then [] else take 100 xs # batches100 (drop 100 xs))"
  by pat_completeness auto
termination
  by (relation "measure length") auto

text \<open>The deduplication invariant: the chunks of one document path have distinct texts.\<close>

definition dedup_inv :: "'f Grokker \<Rightarrow> bool" where
  "dedup_inv g \<longleftrightarrow>
     (\<forall>p. distinct (map Text (filter (\<lambda>c. Path (Document c) = p) (Chunks g))))"

text \<open>
  The score the ranking attaches to a chunk, where Similarity returns one.
\<close>

definition scoreOf :: "'f runtime \<Rightarrow> 'f list \<Rightarrow> 'f Chunk \<Rightarrow> 'f" where
  "scoreOf R embedding chunk =
     (case Similarity R embedding (Embedding chunk) of Inr s \<Rightarrow> s | Inl e \<Rightarrow> f_zero R)"

text \<open>
  The documented contract of \<open>sort.Slice\<close>: the result is a rearrangement of the input,
  and it is sorted when the comparison is a strict weak ordering of the elements
  (asymmetric, with a transitive incomparability). The sort is not promised to be stable.
\<close>

definition weak_order_on :: "'a set \<Rightarrow> ('a \<Rightarrow> 'a \<Rightarrow> bool) \<Rightarrow> bool" where
  "weak_order_on A lt \<longleftrightarrow>
     (\<forall>x\<in>A. \<forall>y\<in>A. lt x y \<longrightarrow> \<not> lt y x) \<and>
     (\<forall>x\<in>A. \<forall>y\<in>A. \<forall>z\<in>A. \<not> lt x y \<longrightarrow> \<not> lt y z \<longrightarrow> \<not> lt x z)"

definition sort_contract :: "'f runtime \<Rightarrow> bool" where
  "sort_contract R \<longleftrightarrow>
     (\<forall>lt xs. mset (sort_Slice R lt xs) = mset xs \<and>
        (weak_order_on (set xs) lt \<longrightarrow> sorted_wrt (\<lambda>x y. \<not> lt y x) (sort_Slice R lt xs)))"

text \<open>The scored chunks as \<open>sort.Slice\<close> leaves them in SimilarChunks.\<close>

definition ranked :: "'f runtime \<Rightarrow> 'f list \<Rightarrow> 'f Chunk list \<Rightarrow> 'f Sim list" where
  "ranked R e chunks =
     sort_Slice R (\<lambda>a b. f_gt R (sim_score a) (sim_score b))
       (map (\<lambda>c. \<lparr>sim_chunk = c, sim_score = scoreOf R e c\<rparr>) chunks)"

text \<open>A sort by insertion, as one function that meets the contract.\<close>

fun sort_insert :: "('a \<Rightarrow> 'a \<Rightarrow> bool) \<Rightarrow> 'a \<Rightarrow> 'a list \<Rightarrow> 'a list" where
  "sort_insert lt x [] = [x]"
| "sort_insert lt x (y # ys) = (if lt x y then x # y # ys else y # sort_insert lt x ys)"

definition insertion_sort :: "('a \<Rightarrow> 'a \<Rightarrow> bool) \<Rightarrow> 'a list \<Rightarrow> 'a list" where
  "insertion_sort lt xs = foldl (\<lambda>sorted x. sort_insert lt x sorted) [] xs"

text \<open>
  Sequences of store operations, each in the world of its moment. An operation that
  fails leaves the store as the code left it, and the sequence goes on from there.
\<close>

datatype op = OpAddDocument string | OpUpdateDocument Document | OpRemoveDocument Document | OpGC

fun apply_op :: "'f env \<Rightarrow> 'f Grokker \<Rightarrow> op \<Rightarrow> 'f Grokker option" where
  "apply_op env g (OpAddDocument path) = map_option fst (AddDocument env g path)"
| "apply_op env g (OpUpdateDocument doc) = map_option fst (UpdateDocument env g doc)"
| "apply_op env g (OpRemoveDocument doc) = Some (RemoveDocument g doc)"
| "apply_op env g OpGC = Some (GC g)"

fun run_ops :: "'f Grokker \<Rightarrow> ('f env \<times> op) list \<Rightarrow> 'f Grokker option" where
  "run_ops g [] = Some g"
| "run_ops g ((env, opn) # rest) =
     (case apply_op env g opn of None \<Rightarrow> None | Some g' \<Rightarrow> run_ops g' rest)"

text \<open>The document an operation chunks, if it chunks one.\<close>

fun op_doc :: "op \<Rightarrow> Document option" where
  "op_doc (OpAddDocument path) = Some \<lparr>Path = path\<rparr>"
| "op_doc (OpUpdateDocument doc) = Some doc"
| "op_doc (OpRemoveDocument doc) = None"
| "op_doc OpGC = None"

text \<open>
  No operation of the sequence chunks a document into a list with a repeated segment.
\<close>

definition segments_distinct :: "'f env \<Rightarrow> 'f Grokker \<Rightarrow> op \<Rightarrow> bool" where
  "segments_distinct env g opn =
     (case op_doc opn of
        None \<Rightarrow> True
      | Some doc \<Rightarrow>
          (case chunkStrings env g doc of Some (Inr cs) \<Rightarrow> distinct cs | _ \<Rightarrow> True))"

fun segments_ok :: "'f Grokker \<Rightarrow> ('f env \<times> op) list \<Rightarrow> bool" where
  "segments_ok g [] = True"
| "segments_ok g ((env, opn) # rest) =
     (segments_distinct env g opn \<and>
      (case apply_op env g opn of None \<Rightarrow> True | Some g' \<Rightarrow> segments_ok g' rest))"

section \<open>Example inputs\<close>

definition doc_a :: Document where "doc_a = \<lparr>Path = ''a.txt''\<rparr>"
definition doc_b :: Document where "doc_b = \<lparr>Path = ''b.txt''\<rparr>"
definition doc_c :: Document where "doc_c = \<lparr>Path = ''c.txt''\<rparr>"

definition chunk_a :: "real Chunk" where
  "chunk_a = \<lparr>Document = doc_a, Text = ''alpha'', Embedding = [0, 1]\<rparr>"
definition chunk_b :: "real Chunk" where
  "chunk_b = \<lparr>Document = doc_b, Text = ''beta'', Embedding = [1, 0]\<rparr>"

text \<open>A store with two documents and a chunk of each.\<close>

definition g_ab :: "real Grokker" where
  "g_ab = \<lparr>Root = [], Documents = [doc_a, doc_b], Chunks = [chunk_a, chunk_b],
           MaxChunkSize = 16384, CharsPerToken = 7 / 2\<rparr>"


text \<open>
  Three chunks of four thousand bytes each, in a store with the default sizes, and a
  world whose embedding client returns the vector \<open>[1, 0]\<close> for every text: the
  scores of the three chunks are \<open>1\<close>, \<open>0\<close> and \<open>-1\<close>.
\<close>

definition chunk_4000 :: "char \<Rightarrow> real list \<Rightarrow> real Chunk" where
  "chunk_4000 ch em = \<lparr>Document = doc_a, Text = replicate 4000 ch, Embedding = em\<rparr>"

definition g_4000 :: "real Grokker" where
  "g_4000 = \<lparr>Root = [], Documents = [doc_a],
             Chunks = [chunk_4000 CHR ''x'' [1, 0], chunk_4000 CHR ''y'' [0, 1],
                       chunk_4000 CHR ''z'' [- 1, 0]],
             MaxChunkSize = 16384, CharsPerToken = 7 / 2\<rparr>"

definition env_answer :: "real env" where
  "env_answer =
     \<lparr>os_Stat = (\<lambda>p. StatNotExist),
      ReadFile = (\<lambda>p. Inl IOError),
      embeddingClient = (\<lambda>ts. Inr (map (\<lambda>t. [1, 0]) ts)),
      chatClient = (\<lambda>ms. Inr [''ok''])\<rparr>"

text \<open>
  A store of three documents, and a world in which the files of the first two are gone,
  the third is older than the store file, and the clients answer nothing.
\<close>

definition g_abc :: "real Grokker" where
  "g_abc = \<lparr>Root = [], Documents = [doc_a, doc_b, doc_c], Chunks = [chunk_a, chunk_b],
            MaxChunkSize = 16384, CharsPerToken = 7 / 2\<rparr>"

definition env_ab_gone :: "real env" where
  "env_ab_gone =
     \<lparr>os_Stat = (\<lambda>p. if p = ''.grok'' then ModTime 10
                      else if p = ''c.txt'' then ModTime 5 else StatNotExist),
      ReadFile = (\<lambda>p. if p = ''c.txt'' then Inr ''gamma'' else Inl IOError),
      embeddingClient = (\<lambda>ts. Inl APIError),
      chatClient = (\<lambda>ms. Inl APIError)\<rparr>"

text \<open>The run time over the real numbers, sorting by insertion.\<close>

definition rt_real :: "real runtime" where
  "rt_real = \<lparr>f_zero = 0, f_add = (+), f_mul = (*), f_div = (/), f_sqrt = sqrt,
              f_gt = (\<lambda>x y. y < x), sort_Slice = insertion_sort\<rparr>"

text \<open>
  The same run time with a sort that meets the contract too, and leaves equal elements
  in the reverse of their order.
\<close>

definition rt_rev :: "real runtime" where
  "rt_rev = rt_real\<lparr>sort_Slice := (\<lambda>lt xs. insertion_sort lt (rev xs))\<rparr>"

text \<open>A store with two chunks of the same embedding.\<close>

definition g_tie :: "real Grokker" where
  "g_tie = \<lparr>Root = [], Documents = [doc_a, doc_b],
            Chunks = [chunk_b, \<lparr>Document = doc_a, Text = ''alpha'', Embedding = [1, 0]\<rparr>],
            MaxChunkSize = 16384, CharsPerToken = 7 / 2\<rparr>"


text \<open>
  A world with one file of two equal paragraphs, and a client that returns one
  embedding for each text.
\<close>

definition em_len :: "string \<Rightarrow> real list" where
  "em_len t = [real (length t), 1]"

definition env_twice :: "real env" where
  "env_twice =
     \<lparr>os_Stat = (\<lambda>p. if p = ''a.txt'' then ModTime 5 else StatNotExist),
      ReadFile = (\<lambda>p. if p = ''a.txt'' then Inr (''same'' @ [CHR 0x0A, CHR 0x0A] @ ''same'')
                       else Inl IOError),
      embeddingClient = (\<lambda>ts. Inr (map em_len ts)),
      chatClient = (\<lambda>ms. Inl APIError)\<rparr>"

text \<open>The same world with two different paragraphs in the file.\<close>

definition env_two :: "real env" where
  "env_two =
     \<lparr>os_Stat = (\<lambda>p. if p = ''a.txt'' then ModTime 5 else StatNotExist),
      ReadFile = (\<lambda>p. if p = ''a.txt'' then Inr (''one'' @ [CHR 0x0A, CHR 0x0A] @ ''three'')
                       else Inl IOError),
      embeddingClient = (\<lambda>ts. Inr (map em_len ts)),
      chatClient = (\<lambda>ms. Inl APIError)\<rparr>"

text \<open>The store after the file of two equal paragraphs has been added to a new store.\<close>

definition g_twice :: "real Grokker" where
  "g_twice = \<lparr>Root = [], Documents = [doc_a],
              Chunks = [\<lparr>Document = doc_a, Text = ''same'', Embedding = [4, 1]\<rparr>,
                        \<lparr>Document = doc_a, Text = ''same'', Embedding = [4, 1]\<rparr>],
              MaxChunkSize = 16384, CharsPerToken = 7 / 2\<rparr>"

text \<open>The store after the file of two different paragraphs has been added.\<close>

definition g_two :: "real Grokker" where
  "g_two = \<lparr>Root = [], Documents = [doc_a],
            Chunks = [\<lparr>Document = doc_a, Text = ''one'', Embedding = [3, 1]\<rparr>,
                      \<lparr>Document = doc_a, Text = ''three'', Embedding = [5, 1]\<rparr>],
            MaxChunkSize = 16384, CharsPerToken = 7 / 2\<rparr>"

definition steps_two :: "(real env \<times> op) list" where
  "steps_two = [(env_two, OpAddDocument ''a.txt''), (env_two, OpUpdateDocument doc_a),
                (env_two, OpRemoveDocument doc_b), (env_two, OpGC)]"

definition texts_250 :: "string list" where
  "texts_250 = map (\<lambda>n. replicate n CHR ''a'') [0..<250]"

section \<open>Properties of RemoveDocument and GC\<close>

lemma findPath_takeWhile:
  "findPath p ds i =
     (if p \<in> Path ` set ds then Some (i + length (takeWhile (\<lambda>d. Path d \<noteq> p) ds)) else None)"
  by (induction ds arbitrary: i) auto

lemma RemoveDocument_Documents:
  "Documents (RemoveDocument g d) =
     takeWhile (\<lambda>x. Path x \<noteq> Path d) (Documents g) @ drop 1 (dropWhile (\<lambda>x. Path x \<noteq> Path d) (Documents g))"
proof (cases "Path d \<in> Path ` set (Documents g)")
  case True
  let ?P = "\<lambda>x. Path x \<noteq> Path d"
  have "take (length (takeWhile ?P (Documents g))) (Documents g) = takeWhile ?P (Documents g)"
    by (simp add: takeWhile_eq_take[symmetric])
  moreover have "drop (Suc (length (takeWhile ?P (Documents g)))) (Documents g) = drop 1 (dropWhile ?P (Documents g))"
    by (simp add: dropWhile_eq_drop)
  ultimately show ?thesis using True
    by (simp add: RemoveDocument_def findPath_takeWhile)
next
  case False
  then have all: "\<forall>x \<in> set (Documents g). Path x \<noteq> Path d" by (metis imageI)
  have A: "takeWhile (\<lambda>x. Path x \<noteq> Path d) (Documents g) = Documents g"
    using all by simp
  have B: "dropWhile (\<lambda>x. Path x \<noteq> Path d) (Documents g) = []"
    using all by simp
  have C: "Documents (RemoveDocument g d) = Documents g"
    using False by (simp add: RemoveDocument_def findPath_takeWhile)
  show ?thesis unfolding A B C by simp
qed

lemma RemoveDocument_other [simp]:
  "Chunks (RemoveDocument g d) = Chunks g"
  "MaxChunkSize (RemoveDocument g d) = MaxChunkSize g"
  "CharsPerToken (RemoveDocument g d) = CharsPerToken g"
  "Root (RemoveDocument g d) = Root g"
  by (simp_all add: RemoveDocument_def split: option.splits)

text \<open>
  Claim C9. RemoveDocument removes from the document list only the first entry with the
  path of the given document, if there is one, and keeps the other documents in their
  order; it leaves the chunk list, the maximum chunk size, the characters per token and
  the root as they were.
\<close>

theorem RemoveDocument_frame:
  "Chunks (RemoveDocument g d) = Chunks g \<and>
   MaxChunkSize (RemoveDocument g d) = MaxChunkSize g \<and>
   CharsPerToken (RemoveDocument g d) = CharsPerToken g \<and>
   Root (RemoveDocument g d) = Root g \<and>
   (if Path d \<in> Path ` set (Documents g)
    then \<exists>xs e ys. Documents g = xs @ e # ys \<and> Path e = Path d \<and> Path d \<notin> Path ` set xs \<and>
           Documents (RemoveDocument g d) = xs @ ys
    else Documents (RemoveDocument g d) = Documents g)"
proof -
  let ?P = "\<lambda>x. Path x \<noteq> Path d"
  let ?ds = "Documents g"
  have docs: "Path d \<in> Path ` set ?ds \<Longrightarrow>
      \<exists>xs e ys. ?ds = xs @ e # ys \<and> Path e = Path d \<and> Path d \<notin> Path ` set xs \<and>
           Documents (RemoveDocument g d) = xs @ ys"
  proof -
    assume "Path d \<in> Path ` set ?ds"
    then have ne: "dropWhile ?P ?ds \<noteq> []" by auto
    then obtain e ys where dw: "dropWhile ?P ?ds = e # ys" by (cases "dropWhile ?P ?ds") auto
    have "?ds = takeWhile ?P ?ds @ e # ys" using dw takeWhile_dropWhile_id[of ?P ?ds] by simp
    moreover have "Path e = Path d" using dw hd_dropWhile[OF ne] by simp
    moreover have "Path d \<notin> Path ` set (takeWhile ?P ?ds)" by (auto dest: set_takeWhileD)
    moreover have "Documents (RemoveDocument g d) = takeWhile ?P ?ds @ ys"
      using dw by (simp add: RemoveDocument_Documents)
    ultimately show ?thesis by blast
  qed
  have nodocs: "Path d \<notin> Path ` set ?ds \<Longrightarrow> Documents (RemoveDocument g d) = ?ds"
    by (simp add: RemoveDocument_def findPath_takeWhile)
  show ?thesis using docs nodocs by simp
qed

theorem RemoveDocument_frame_witness:
  "Path doc_a \<in> Path ` set (Documents g_ab) \<and>
   Documents (RemoveDocument g_ab doc_a) = [doc_b] \<and>
   Chunks (RemoveDocument g_ab doc_a) = [chunk_a, chunk_b] \<and>
   Path doc_c \<notin> Path ` set (Documents g_ab) \<and>
   Documents (RemoveDocument g_ab doc_c) = [doc_a, doc_b]"
  using RemoveDocument_frame [of g_ab doc_a] RemoveDocument_frame [of g_ab doc_c]
  by (simp add: g_ab_def doc_a_def doc_b_def doc_c_def RemoveDocument_def)








section \<open>The context of Answer\<close>

lemma promptTmpl_length: "length promptTmpl = 36"
  by (simp add: promptTmpl_def)

lemma maxSize_g_4000: "maxSize g_4000 = 8192"
  by (simp add: maxSize_def g_4000_def)

lemma sims_loop_g_4000: "sims_loop rt_real [1, 0] (Chunks g_4000) [] =
      Inr [\<lparr>sim_chunk = chunk_4000 CHR ''x'' [1, 0], sim_score = 1\<rparr>,
           \<lparr>sim_chunk = chunk_4000 CHR ''y'' [0, 1], sim_score = 0\<rparr>,
           \<lparr>sim_chunk = chunk_4000 CHR ''z'' [- 1, 0], sim_score = - 1\<rparr>]"
  by (simp add: g_4000_def Similarity_def rt_real_def chunk_4000_def)


lemma SimilarChunks_g_4000: "SimilarChunks rt_real g_4000 [1, 0] 0 = Inr (Chunks g_4000)"
proof -
  have t: "topK_loop [a, b, c] 3 0 [] = [sim_chunk a, sim_chunk b, sim_chunk c]" for a b c :: "real Sim"
    by (simp add: topK_loop.simps)
  have i: "sort_Slice rt_real (\<lambda>a b. f_gt rt_real (sim_score a) (sim_score b))
        [\<lparr>sim_chunk = chunk_4000 CHR ''x'' [1, 0], sim_score = 1\<rparr>,
         \<lparr>sim_chunk = chunk_4000 CHR ''y'' [0, 1], sim_score = 0\<rparr>,
         \<lparr>sim_chunk = chunk_4000 CHR ''z'' [- 1, 0], sim_score = - 1\<rparr>] =
        [\<lparr>sim_chunk = chunk_4000 CHR ''x'' [1, 0], sim_score = 1\<rparr>,
         \<lparr>sim_chunk = chunk_4000 CHR ''y'' [0, 1], sim_score = 0\<rparr>,
         \<lparr>sim_chunk = chunk_4000 CHR ''z'' [- 1, 0], sim_score = - 1\<rparr>]"
    by (simp add: rt_real_def insertion_sort_def)
  show ?thesis
    unfolding SimilarChunks_def sims_loop_g_4000 by (simp add: i t g_4000_def)
qed

lemma FindChunks_g_4000: "FindChunks env_answer rt_real g_4000 ''why'' 0 = Inr (Chunks g_4000)"
  using SimilarChunks_g_4000 by (simp add: FindChunks_def CreateEmbeddings_def CreateEmbeddings_loop.simps env_answer_def)


lemma context_loop_g_4000: "context_loop 8192 (Chunks g_4000) [] =
     replicate 4000 CHR ''x'' @ [CHR 0x0A, CHR 0x0A] @
     replicate 4000 CHR ''y'' @ [CHR 0x0A, CHR 0x0A] @
     replicate 4000 CHR ''z'' @ [CHR 0x0A, CHR 0x0A]"
  by (simp add: g_4000_def chunk_4000_def promptTmpl_length)

lemma context_length_g_4000: "int (length (context_loop 8192 (Chunks g_4000) [])) + int (length promptTmpl) = 12042"
  unfolding context_loop_g_4000 by (simp add: promptTmpl_length)

lemma Generate_env_answer: "Generate env_answer question ctxt False =
     ([[\<lparr>Role = RoleSystem, Content = ''You are a helpful assistant.''\<rparr>,
        \<lparr>Role = RoleUser, Content = ctxt\<rparr>,
        \<lparr>Role = RoleAssistant, Content = ''Great! I've read the context.''\<rparr>,
        \<lparr>Role = RoleUser, Content = question\<rparr>]],
      Inr ([''ok''], []))"
  by (simp add: Generate_def chat_def env_answer_def)

lemma Answer_g_4000: "Answer env_answer rt_real g_4000 ''why'' False =
     ([[\<lparr>Role = RoleSystem, Content = ''You are a helpful assistant.''\<rparr>,
        \<lparr>Role = RoleUser, Content = context_loop 8192 (Chunks g_4000) []\<rparr>,
        \<lparr>Role = RoleAssistant, Content = ''Great! I've read the context.''\<rparr>,
        \<lparr>Role = RoleUser, Content = ''why''\<rparr>]],
      Inr ([''ok''], []))"
  unfolding Answer_def FindChunks_g_4000 maxSize_g_4000 by (simp only: sum.case Generate_env_answer)


text \<open>
  Claim C1, evaluated. With a maximum chunk size of 16384 the budget is 8192. The store
  has three chunks of 4000 bytes each, ranked in their order for the question. The
  loop of Answer appends each text before it compares the length with the budget: the
  context it sends holds all three texts, and with the template it is 12042 bytes long.
\<close>

theorem Answer_context_overflow:
  "maxSize g_4000 = 8192 \<and>
   FindChunks env_answer rt_real g_4000 ''why'' 0 = Inr (Chunks g_4000) \<and>
   context_loop (maxSize g_4000) (Chunks g_4000) [] =
     replicate 4000 CHR ''x'' @ [CHR 0x0A, CHR 0x0A] @
     replicate 4000 CHR ''y'' @ [CHR 0x0A, CHR 0x0A] @
     replicate 4000 CHR ''z'' @ [CHR 0x0A, CHR 0x0A] \<and>
   int (length (context_loop (maxSize g_4000) (Chunks g_4000) [])) + int (length promptTmpl) = 12042 \<and>
   Answer env_answer rt_real g_4000 ''why'' False =
     ([[\<lparr>Role = RoleSystem, Content = ''You are a helpful assistant.''\<rparr>,
        \<lparr>Role = RoleUser, Content = context_loop (maxSize g_4000) (Chunks g_4000) []\<rparr>,
        \<lparr>Role = RoleAssistant, Content = ''Great! I've read the context.''\<rparr>,
        \<lparr>Role = RoleUser, Content = ''why''\<rparr>]],
      Inr ([''ok''], []))"
  unfolding maxSize_g_4000
  by (intro conjI refl FindChunks_g_4000 context_loop_g_4000 context_length_g_4000 Answer_g_4000)

section \<open>UpdateEmbeddings\<close>

text \<open>
  Claim C5, evaluated. The store lists three documents; the files of the first two are
  missing. Removing the first one shifts the second into the slot the loop has already
  read, so the loop never looks at it: it is still in the document list at the end.
\<close>

theorem UpdateEmbeddings_skips_missing:
  "os_Stat env_ab_gone (Path doc_a) = StatNotExist \<and>
   os_Stat env_ab_gone (Path doc_b) = StatNotExist \<and>
   UpdateEmbeddings env_ab_gone g_abc ''.grok'' =
     Some (g_abc\<lparr>Documents := [doc_b, doc_c], Chunks := [chunk_b]\<rparr>, Inr True)"
  by (simp add: UpdateEmbeddings_def env_ab_gone_def g_abc_def doc_a_def doc_b_def doc_c_def
      chunk_a_def chunk_b_def RemoveDocument_def GC_def)

section \<open>Batches of CreateEmbeddings\<close>

declare batches100.simps [simp del]
declare CreateEmbeddings_loop.simps [simp del]

lemma batches100_Nil [simp]: "batches100 [] = []"
  by (simp add: batches100.simps)

lemma batches100_concat: "concat (batches100 xs) = xs"
proof (induction xs rule: batches100.induct)
  case (1 xs)
  show ?case
  proof (cases "xs = []")
    case True
    then show ?thesis by simp
  next
    case False
    with 1 show ?thesis by (subst batches100.simps) simp
  qed
qed

lemma batches100_sizes: "r \<in> set (batches100 xs) \<Longrightarrow> r \<noteq> [] \<and> length r \<le> 100"
proof (induction xs rule: batches100.induct)
  case (1 xs)
  show ?case
  proof (cases "xs = []")
    case True
    with 1(2) show ?thesis by simp
  next
    case False
    from 1(2) False have "r = take 100 xs \<or> r \<in> set (batches100 (drop 100 xs))"
      by (subst (asm) batches100.simps) simp
    then show ?thesis using 1(1)[OF False] False by auto
  qed
qed

lemma batches100_length: "length (batches100 xs) = (length xs + 99) div 100"
proof (induction xs rule: batches100.induct)
  case (1 xs)
  show ?case
  proof (cases "xs = []")
    case True
    then show ?thesis by simp
  next
    case False
    then have pos: "0 < length xs" by simp
    have "length (batches100 xs) = Suc (length (batches100 (drop 100 xs)))"
      using False by (subst batches100.simps) simp
    also have "\<dots> = Suc ((length xs - 100 + 99) div 100)"
      using 1[OF False] by simp
    also have "\<dots> = (length xs + 99) div 100"
    proof (cases "length xs < 100")
      case True
      with pos have "(length xs + 99) div 100 = 1" by (intro div_nat_eqI) (simp_all add: Suc_le_eq)
      with True show ?thesis by simp
    next
      case False
      then obtain k where k: "length xs = k + 100" by (metis add.commute le_Suc_ex not_less)
      have "(k + 100 + 99) div 100 = Suc ((k + 99) div 100)"
        by (simp add: div_add_self2 add.commute add.left_commute)
      then show ?thesis using k by simp
    qed
    finally show ?thesis .
  qed
qed

lemma batches100_250:
  assumes "length xs = 250"
  shows "batches100 xs = [take 100 xs, take 100 (drop 100 xs), drop 200 xs]"
proof -
  have ne: "xs \<noteq> []" "drop 100 xs \<noteq> []" "drop 200 xs \<noteq> []" using assms by auto
  have "batches100 xs = take 100 xs # batches100 (drop 100 xs)"
    using ne by (subst batches100.simps) simp
  also have "batches100 (drop 100 xs) = take 100 (drop 100 xs) # batches100 (drop 200 xs)"
    using ne by (subst batches100.simps) simp
  also have "batches100 (drop 200 xs) = take 100 (drop 200 xs) # batches100 (drop 300 xs)"
    using ne by (subst batches100.simps) simp
  finally show ?thesis using assms by simp
qed

lemma CreateEmbeddings_loop_batches:
  assumes "\<And>ts. c ts = Inr (map em ts)"
  shows "CreateEmbeddings_loop c texts i embeddings reqs =
           (reqs @ batches100 (drop i texts), Inr (embeddings @ map em (drop i texts)))"
  using assms
proof (induction c texts i embeddings reqs rule: CreateEmbeddings_loop.induct)
  case (1 c texts i embeddings reqs)
  note cl = "1.prems"
  show ?case
  proof (cases "i < length texts")
    case False
    then show ?thesis by (subst CreateEmbeddings_loop.simps) simp
  next
    case True
    let ?endi = "if i + 100 > length texts then length texts else i + 100"
    let ?req = "take (?endi - i) (drop i texts)"
    have req: "?req = take 100 (drop i texts)" using True by auto
    have c: "c ?req = Inr (map em ?req)" by (rule cl)
    have ne: "drop i texts \<noteq> []" using True by simp
    have IH: "CreateEmbeddings_loop c texts (i + 100) (embeddings @ map em ?req) (reqs @ [?req]) =
        ((reqs @ [?req]) @ batches100 (drop (i + 100) texts),
         Inr ((embeddings @ map em ?req) @ map em (drop (i + 100) texts)))"
      using "1.IH"[OF True refl refl c cl] .
    have b: "batches100 (drop i texts) = take 100 (drop i texts) # batches100 (drop (i + 100) texts)"
      using ne by (subst batches100.simps) (simp add: add.commute)
    have m: "map em (drop i texts) = map em (take 100 (drop i texts)) @ map em (drop (i + 100) texts)"
      by (metis add.commute append_take_drop_id drop_drop map_append)
    have "CreateEmbeddings_loop c texts i embeddings reqs =
            CreateEmbeddings_loop c texts (i + 100) (embeddings @ map em ?req) (reqs @ [?req])"
      using True c by (subst CreateEmbeddings_loop.simps) (simp add: Let_def)
    then show ?thesis unfolding IH unfolding req b m by simp
  qed
qed

text \<open>
  Claim C7. With a client that returns one embedding for each text of a request, in
  order, CreateEmbeddings sends the texts in successive batches of at most a hundred,
  none empty, which together are the input, and returns one embedding for each input in
  the order of the input. A list of 250 texts is sent as three batches, of 100, 100 and
  50 texts.
\<close>

theorem CreateEmbeddings_batches:
  assumes "\<forall>ts. embeddingClient env ts = Inr (map em ts)"
  shows "snd (CreateEmbeddings env texts) = Inr (map em texts) \<and>
         fst (CreateEmbeddings env texts) = batches100 texts \<and>
         concat (fst (CreateEmbeddings env texts)) = texts \<and>
         (\<forall>r \<in> set (fst (CreateEmbeddings env texts)). r \<noteq> [] \<and> length r \<le> 100) \<and>
         length (fst (CreateEmbeddings env texts)) = (length texts + 99) div 100 \<and>
         (length texts = 250 \<longrightarrow>
            fst (CreateEmbeddings env texts) = [take 100 texts, take 100 (drop 100 texts), drop 200 texts] \<and>
            map length (fst (CreateEmbeddings env texts)) = [100, 100, 50])"
proof -
  have eq: "CreateEmbeddings env texts = (batches100 texts, Inr (map em texts))"
    using CreateEmbeddings_loop_batches[of "embeddingClient env" em texts 0 "[]" "[]"] assms
    by (simp add: CreateEmbeddings_def)
  have "length texts = 250 \<Longrightarrow> map length [take 100 texts, take 100 (drop 100 texts), drop 200 texts] = [100, 100, 50]"
    by simp
  then show ?thesis
    unfolding eq using batches100_concat[of texts] batches100_sizes[of _ texts] batches100_length[of texts]
      batches100_250[of texts]
    by auto
qed

theorem CreateEmbeddings_batches_witness:
  "(\<forall>ts. embeddingClient env_two ts = Inr (map em_len ts)) \<and>
   length texts_250 = 250 \<and>
   snd (CreateEmbeddings env_two texts_250) = Inr (map em_len texts_250) \<and>
   map length (fst (CreateEmbeddings env_two texts_250)) = [100, 100, 50] \<and>
   concat (fst (CreateEmbeddings env_two texts_250)) = texts_250"
proof -
  have h: "\<forall>ts. embeddingClient env_two ts = Inr (map em_len ts)"
    by (simp add: env_two_def)
  have l: "length texts_250 = 250"
    by (simp add: texts_250_def)
  note t = CreateEmbeddings_batches [OF h, of texts_250]
  from t have a: "snd (CreateEmbeddings env_two texts_250) = Inr (map em_len texts_250)"
    by blast
  from t l have b: "map length (fst (CreateEmbeddings env_two texts_250)) = [100, 100, 50]"
    by blast
  from t have c: "concat (fst (CreateEmbeddings env_two texts_250)) = texts_250"
    by blast
  show ?thesis
    using h l a b c by blast
qed

section \<open>Ranking by SimilarChunks\<close>

declare topK_loop.simps [simp del]

lemma Similarity_loop_ok:
  "length a \<le> length b \<Longrightarrow> \<exists>r. Similarity_loop R a b acc = Inr r"
  by (induction R a b acc rule: Similarity_loop.induct) auto

lemma Similarity_loop_panic:
  "length b < length a \<Longrightarrow> Similarity_loop R a b acc = Inl RuntimePanic"
  by (induction R a b acc rule: Similarity_loop.induct) auto

lemma Similarity_ok:
  assumes "length a \<le> length (Embedding c)"
  shows "Similarity R a (Embedding c) = Inr (scoreOf R a c)"
proof -
  obtain r where "Similarity_loop R a (Embedding c) (f_zero R, f_zero R, f_zero R) = Inr r"
    using Similarity_loop_ok[OF assms] by blast
  then show ?thesis by (simp add: scoreOf_def Similarity_def split: prod.splits)
qed

lemma Similarity_panic:
  "length b < length a \<Longrightarrow> Similarity R a b = Inl RuntimePanic"
  by (simp add: Similarity_def Similarity_loop_panic)

lemma sims_loop_ok:
  "\<forall>c\<in>set chunks. length e \<le> length (Embedding c) \<Longrightarrow>
   sims_loop R e chunks sims =
     Inr (sims @ map (\<lambda>c. \<lparr>sim_chunk = c, sim_score = scoreOf R e c\<rparr>) chunks)"
  by (induction chunks arbitrary: sims) (simp_all add: Similarity_ok)

lemma topK_loop_take:
  "topK_loop sims K i chunks = chunks @ map sim_chunk (take (nat K - i) (drop i sims))"
proof (induction sims K i chunks rule: topK_loop.induct)
  case (1 sims K i chunks)
  show ?case
  proof (cases "int i < K \<and> i < length sims")
    case True
    then have "i < nat K" by linarith
    then have n: "nat K - i = Suc (nat K - Suc i)" by simp
    have d: "drop i sims = sims ! i # drop (Suc i) sims"
      using True by (simp add: Cons_nth_drop_Suc)
    have "topK_loop sims K i chunks = topK_loop sims K (Suc i) (chunks @ [sim_chunk (sims ! i)])"
      using True by (subst topK_loop.simps) simp
    also have "\<dots> = (chunks @ [sim_chunk (sims ! i)]) @
                     map sim_chunk (take (nat K - Suc i) (drop (Suc i) sims))"
      using 1[OF True] .
    finally show ?thesis unfolding n d by simp
  next
    case False
    then have "take (nat K - i) (drop i sims) = []" by auto
    moreover have "topK_loop sims K i chunks = chunks"
      by (subst topK_loop.simps) (simp only: False if_False)
    ultimately show ?thesis by simp
  qed
qed

lemma SimilarChunks_take:
  assumes "\<forall>c\<in>set (Chunks g). length e \<le> length (Embedding c)"
  shows "SimilarChunks R g e K =
           Inr (map sim_chunk (take (nat (if K = 0 then int (length (ranked R e (Chunks g))) else K))
                                 (ranked R e (Chunks g))))"
  using sims_loop_ok[OF assms, of R "[]"]
  by (simp add: SimilarChunks_def topK_loop_take ranked_def Let_def)









lemma sort_insert_mset: "mset (sort_insert lt x ys) = add_mset x (mset ys)"
  by (induction ys) simp_all

lemma insertion_foldl_mset:
  "mset (foldl (\<lambda>sorted x. sort_insert lt x sorted) acc xs) = mset acc + mset xs"
  by (induction xs arbitrary: acc) (simp_all add: sort_insert_mset)

lemma sort_insert_sorted:
  assumes w: "weak_order_on A lt" and x: "x \<in> A"
  shows "set ys \<subseteq> A \<Longrightarrow> sorted_wrt (\<lambda>a b. \<not> lt b a) ys \<Longrightarrow>
         sorted_wrt (\<lambda>a b. \<not> lt b a) (sort_insert lt x ys)"
proof (induction ys)
  case Nil
  then show ?case by simp
next
  case (Cons y ys)
  have asym: "\<And>a b. a \<in> A \<Longrightarrow> b \<in> A \<Longrightarrow> lt a b \<Longrightarrow> \<not> lt b a"
    using w unfolding weak_order_on_def by blast
  have ntr: "\<And>a b c. a \<in> A \<Longrightarrow> b \<in> A \<Longrightarrow> c \<in> A \<Longrightarrow> \<not> lt a b \<Longrightarrow> \<not> lt b c \<Longrightarrow> \<not> lt a c"
    using w unfolding weak_order_on_def by blast
  have yA: "y \<in> A" and ysA: "set ys \<subseteq> A" using Cons.prems(1) by auto
  have sy: "\<forall>z\<in>set ys. \<not> lt z y" and sys: "sorted_wrt (\<lambda>a b. \<not> lt b a) ys"
    using Cons.prems(2) by auto
  show ?case
  proof (cases "lt x y")
    case True
    have "\<not> lt y x" using asym[OF x yA True] .
    moreover have "\<forall>z\<in>set ys. \<not> lt z x"
    proof
      fix z assume z: "z \<in> set ys"
      then have "z \<in> A" using ysA by auto
      moreover have "\<not> lt z y" using sy z by blast
      ultimately show "\<not> lt z x" using ntr[of z y x] yA x \<open>\<not> lt y x\<close> by blast
    qed
    ultimately show ?thesis using True Cons.prems(2) by simp
  next
    case False
    have "set (sort_insert lt x ys) = insert x (set ys)"
      using sort_insert_mset[of lt x ys] by (metis set_mset_add_mset_insert set_mset_mset)
    then have "\<forall>z\<in>set (sort_insert lt x ys). \<not> lt z y" using False sy by auto
    then show ?thesis using False Cons.IH[OF ysA sys] by simp
  qed
qed

lemma insertion_foldl_sorted:
  assumes w: "weak_order_on A lt"
  shows "set xs \<subseteq> A \<Longrightarrow> set acc \<subseteq> A \<Longrightarrow> sorted_wrt (\<lambda>a b. \<not> lt b a) acc \<Longrightarrow>
         sorted_wrt (\<lambda>a b. \<not> lt b a) (foldl (\<lambda>sorted x. sort_insert lt x sorted) acc xs)"
proof (induction xs arbitrary: acc)
  case Nil
  then show ?case by simp
next
  case (Cons x xs)
  have xA: "x \<in> A" and xsA: "set xs \<subseteq> A" using Cons.prems(1) by auto
  have s: "sorted_wrt (\<lambda>a b. \<not> lt b a) (sort_insert lt x acc)"
    by (rule sort_insert_sorted[OF w xA Cons.prems(2) Cons.prems(3)])
  have "set (sort_insert lt x acc) = insert x (set acc)"
    using sort_insert_mset[of lt x acc] by (metis set_mset_add_mset_insert set_mset_mset)
  then have sub: "set (sort_insert lt x acc) \<subseteq> A" using xA Cons.prems(2) by simp
  show ?case using Cons.IH[OF xsA sub s] by simp
qed

lemma insertion_sort_mset: "mset (insertion_sort lt xs) = mset xs"
  by (simp add: insertion_sort_def insertion_foldl_mset)

lemma insertion_sort_sorted:
  "weak_order_on (set xs) lt \<Longrightarrow> sorted_wrt (\<lambda>a b. \<not> lt b a) (insertion_sort lt xs)"
  unfolding insertion_sort_def by (rule insertion_foldl_sorted[where A = "set xs"]) simp_all


lemma sort_contract_rt_rev: "sort_contract rt_rev"
  unfolding sort_contract_def rt_rev_def
proof (intro allI conjI impI)
  fix lt :: "real Sim \<Rightarrow> real Sim \<Rightarrow> bool" and xs
  show "mset (sort_Slice (rt_real\<lparr>sort_Slice := \<lambda>lt xs. insertion_sort lt (rev xs)\<rparr>) lt xs) = mset xs"
    by (simp add: insertion_sort_mset)
  assume "weak_order_on (set xs) lt"
  then have "weak_order_on (set (rev xs)) lt" by simp
  then show "sorted_wrt (\<lambda>x y. \<not> lt y x)
      (sort_Slice (rt_real\<lparr>sort_Slice := \<lambda>lt xs. insertion_sort lt (rev xs)\<rparr>) lt xs)"
    using insertion_sort_sorted[of "rev xs" lt] by simp
qed









text \<open>
  The contract of \<open>sort.Slice\<close> does not make the ranking stable: with a sort that
  meets it and reverses equal elements, two chunks of equal score come out in the
  reverse of the store order.
\<close>

lemma sort_contract_allows_reversed_ties:
  "sort_contract rt_rev \<and>
   scoreOf rt_rev [1, 0] (Chunks g_tie ! 0) = scoreOf rt_rev [1, 0] (Chunks g_tie ! 1) \<and>
   SimilarChunks rt_rev g_tie [1, 0] 0 = Inr [Chunks g_tie ! 1, Chunks g_tie ! 0]"
proof -
  have d: "\<forall>c\<in>set (Chunks g_tie). length [1, 0 :: real] \<le> length (Embedding c)"
    by (simp add: g_tie_def chunk_b_def)
  have s: "scoreOf rt_rev [1, 0] chunk_b = 1"
      "scoreOf rt_rev [1, 0] \<lparr>Document = doc_a, Text = ''alpha'', Embedding = [1, 0]\<rparr> = 1"
    by (simp_all add: scoreOf_def Similarity_def rt_rev_def rt_real_def chunk_b_def)
  have r: "ranked rt_rev [1, 0] (Chunks g_tie) =
     [\<lparr>sim_chunk = \<lparr>Document = doc_a, Text = ''alpha'', Embedding = [1, 0]\<rparr>, sim_score = 1\<rparr>,
      \<lparr>sim_chunk = chunk_b, sim_score = 1\<rparr>]"
    by (simp add: ranked_def g_tie_def s) (simp add: rt_rev_def rt_real_def insertion_sort_def)
  have "SimilarChunks rt_rev g_tie [1, 0] 0 =
     Inr [\<lparr>Document = doc_a, Text = ''alpha'', Embedding = [1, 0]\<rparr>, chunk_b]"
    by (simp add: SimilarChunks_take[OF d] r)
  then show ?thesis using sort_contract_rt_rev s by (simp add: g_tie_def)
qed

section \<open>When chunkStrings returns\<close>

text \<open>
  With a positive maximum chunk size the loops of chunkStrings end; with the size zero
  the inner loop does not return on a paragraph that is not empty.
\<close>

lemma splitParagraph_returns:
  "0 < m \<Longrightarrow> \<exists>cs. splitParagraph m p c = Some (Inr cs)"
proof (induction "length p" arbitrary: p c rule: less_induct)
  case less
  show ?case
  proof (cases "p = []")
    case True
    then show ?thesis by (subst splitParagraph.simps) simp
  next
    case False
    show ?thesis
    proof (cases "int (length p) > m")
      case True
      have "length (drop (nat m) p) < length p" using less.prems False by simp
      from less.hyps[OF this less.prems] obtain cs where
        "splitParagraph m (drop (nat m) p) (c @ [take (nat m) p]) = Some (Inr cs)" by blast
      then show ?thesis using True False less.prems by (subst splitParagraph.simps) simp
    next
      case 2: False
      have "length ([]::string) < length p" using False by simp
      from less.hyps[OF this less.prems] obtain cs where
        "splitParagraph m [] (c @ [p]) = Some (Inr cs)" by blast
      then show ?thesis using 2 False by (subst splitParagraph.simps) simp
    qed
  qed
qed

lemma splitParagraph_zero_returns_only_on_empty:
  assumes "splitParagraph m p c = Some r"
  shows "m = 0 \<longrightarrow> p = []"
  by (rule splitParagraph.raw_induct[where P = "\<lambda>m p c r. m = 0 \<longrightarrow> p = []", OF _ assms])
     (auto split: if_splits)

lemma splitParagraph_zero_diverges: "p \<noteq> [] \<Longrightarrow> splitParagraph 0 p c = None"
  using splitParagraph_zero_returns_only_on_empty[of 0 p c] by (cases "splitParagraph 0 p c") auto

lemma chunkParagraphs_returns:
  "0 < m \<Longrightarrow> \<exists>cs. chunkParagraphs m ps c = Some (Inr cs)"
proof (induction ps arbitrary: c)
  case Nil
  then show ?case by simp
next
  case (Cons p ps)
  from splitParagraph_returns[OF Cons.prems, of p c] obtain c' where
    "splitParagraph m p c = Some (Inr c')" by blast
  then show ?case using Cons.IH[OF Cons.prems, of c'] by simp
qed

lemma chunkStrings_returns:
  "0 < MaxChunkSize g \<Longrightarrow> ReadFile env (Path doc) = Inr txt \<Longrightarrow>
   \<exists>cs. chunkStrings env g doc = Some (Inr cs)"
  by (simp add: chunkStrings_def chunkParagraphs_returns)

section \<open>The diff of UpdateDocument\<close>

lemma findText_takeWhile:
  "findText s cs i =
     (if s \<in> Text ` set cs then Some (i + length (takeWhile (\<lambda>c. Text c \<noteq> s) cs)) else None)"
  by (induction cs arbitrary: i) auto

lemma findText_None: "findText s old 0 = None \<Longrightarrow> s \<notin> Text ` set old"
  by (simp add: findText_takeWhile split: if_splits)

lemma findText_Some:
  assumes "findText s old 0 = Some i"
  shows "\<exists>xs e ys. old = xs @ e # ys \<and> Text e = s \<and> take i old @ drop (i + 1) old = xs @ ys"
proof -
  let ?P = "\<lambda>c. Text c \<noteq> s"
  from assms have mem: "s \<in> Text ` set old" and i: "i = length (takeWhile ?P old)"
    by (simp_all add: findText_takeWhile split: if_splits)
  from mem have ne: "dropWhile ?P old \<noteq> []" by auto
  then obtain e ys where dw: "dropWhile ?P old = e # ys" by (cases "dropWhile ?P old") auto
  have sp: "old = takeWhile ?P old @ e # ys" using dw takeWhile_dropWhile_id[of ?P old] by simp
  have te: "Text e = s" using dw hd_dropWhile[OF ne] by simp
  have "take i old = takeWhile ?P old" unfolding i by (simp add: takeWhile_eq_take[symmetric])
  moreover have "drop (i + 1) old = ys"
  proof -
    have "drop (i + 1) old = drop 1 (drop i old)" by simp
    also have "drop i old = dropWhile ?P old" unfolding i by (simp add: dropWhile_eq_drop)
    finally show ?thesis using dw by simp
  qed
  ultimately show ?thesis using sp te by blast
qed

lemma diff_loop_covers:
  "diff_loop cs old acc upd = (old', news, upd') \<Longrightarrow>
   \<exists>added. news = acc @ added \<and> mset cs \<subseteq># mset (map Text old) + mset added"
proof (induction cs arbitrary: old acc upd)
  case Nil
  then show ?case by simp
next
  case (Cons s cs)
  show ?case
  proof (cases "findText s old 0")
    case None
    with Cons.prems have "diff_loop cs old (acc @ [s]) True = (old', news, upd')" by simp
    from Cons.IH[OF this] obtain added where
      a: "news = (acc @ [s]) @ added" "mset cs \<subseteq># mset (map Text old) + mset added" by blast
    have "mset (s # cs) \<subseteq># mset (map Text old) + mset (s # added)"
      using a(2) by (simp add: subset_mset.add_mono)
    with a(1) show ?thesis by (intro exI[of _ "s # added"]) simp
  next
    case (Some i)
    from findText_Some[OF Some] obtain xs e ys where
      o: "old = xs @ e # ys" "Text e = s" "take i old @ drop (i + 1) old = xs @ ys" by blast
    from Cons.prems Some have "diff_loop cs (take i old @ drop (i + 1) old) acc upd = (old', news, upd')"
      by simp
    from Cons.IH[OF this] obtain added where
      a: "news = acc @ added" "mset cs \<subseteq># mset (map Text (xs @ ys)) + mset added"
      unfolding o(3) by blast
    define M where "M = mset (map Text (xs @ ys))"
    have e: "mset (map Text old) = add_mset s M"
      using o(1,2) unfolding M_def by simp
    have "mset cs \<subseteq># M + mset added" using a(2) unfolding M_def .
    then have "mset (s # cs) \<subseteq># mset (map Text old) + mset added"
      unfolding e by simp
    with a(1) show ?thesis by blast
  qed
qed

lemma diff_loop_nothing_new:
  "mset cs \<subseteq># mset (map Text old) \<Longrightarrow> \<exists>old'. diff_loop cs old acc upd = (old', acc, upd)"
proof (induction cs arbitrary: old)
  case Nil
  then show ?case by simp
next
  case (Cons s cs)
  have "s \<in># mset (map Text old)"
    using mset_subset_eqD[OF Cons.prems, of s] by simp
  then have "s \<in> Text ` set old" by simp
  then obtain i where i: "findText s old 0 = Some i" by (simp add: findText_takeWhile)
  from findText_Some[OF i] obtain xs e ys where
    o: "old = xs @ e # ys" "Text e = s" "take i old @ drop (i + 1) old = xs @ ys" by blast
  define M where "M = mset (map Text (xs @ ys))"
  have e: "mset (map Text old) = add_mset s M"
    using o(1,2) unfolding M_def by simp
  have "mset (s # cs) \<subseteq># add_mset s M" using Cons.prems unfolding e .
  then have "mset cs \<subseteq># mset (map Text (xs @ ys))" unfolding M_def by simp
  from Cons.IH[OF this] obtain old' where "diff_loop cs (xs @ ys) acc upd = (old', acc, upd)" by blast
  then show ?case using i o(3) by simp
qed

lemma diff_loop_distinct:
  "distinct cs \<Longrightarrow>
   fst (snd (diff_loop cs old acc upd)) = acc @ filter (\<lambda>s. s \<notin> Text ` set old) cs"
proof (induction cs arbitrary: old acc upd)
  case Nil
  then show ?case by simp
next
  case (Cons s cs)
  then have d: "distinct cs" and ns: "s \<notin> set cs" by simp_all
  show ?case
  proof (cases "findText s old 0")
    case None
    then have "s \<notin> Text ` set old" by (rule findText_None)
    then show ?thesis using None Cons.IH[OF d] by simp
  next
    case (Some i)
    from findText_Some[OF Some] obtain xs e ys where
      o: "old = xs @ e # ys" "Text e = s" "take i old @ drop (i + 1) old = xs @ ys" by blast
    have "filter (\<lambda>t. t \<notin> Text ` set (xs @ ys)) cs = filter (\<lambda>t. t \<notin> Text ` set old) cs"
      using ns o(1,2) by (intro filter_cong) auto
    moreover have "s \<in> Text ` set old" using o(1,2) by auto
    ultimately show ?thesis using Some o(3) Cons.IH[OF d, of "xs @ ys" acc upd] by simp
  qed
qed

lemma appendChunks_zip:
  "appendChunks doc texts embs chunks =
     (chunks @ map (\<lambda>(t, e). \<lparr>Document = doc, Text = t, Embedding = e\<rparr>) (zip texts embs),
      if length embs < length texts then Some RuntimePanic else None)"
  by (induction doc texts embs chunks rule: appendChunks.induct) simp_all

lemma CreateEmbeddings_Nil: "CreateEmbeddings env [] = ([], Inr [])"
  by (simp add: CreateEmbeddings_def CreateEmbeddings_loop.simps)

lemma chunkStrings_cong:
  "MaxChunkSize g' = MaxChunkSize g \<Longrightarrow> chunkStrings env g' doc = chunkStrings env g doc"
  by (cases "ReadFile env (Path doc)") (simp_all add: chunkStrings_def)

lemma UpdateDocument_cases:
  assumes "UpdateDocument env g doc = Some (g', reqs, r)"
  shows "(g' = g \<and> (\<exists>e. r = Inl e)) \<or>
         (\<exists>cs old' news upd embs.
            chunkStrings env g doc = Some (Inr cs) \<and>
            diff_loop cs (filter (\<lambda>chunk. Path (Document chunk) = Path doc) (Chunks g)) [] False =
              (old', news, upd) \<and>
            CreateEmbeddings env news = (reqs, Inr embs) \<and>
            g' = g\<lparr>Chunks := Chunks g @
                    map (\<lambda>(t, e). \<lparr>Document = doc, Text = t, Embedding = e\<rparr>) (zip news embs)\<rparr> \<and>
            (if length embs < length news then r = Inl RuntimePanic else r = Inr upd))"
proof (cases "chunkStrings env g doc")
  case None
  with assms show ?thesis by (simp add: UpdateDocument_def)
next
  case (Some a)
  show ?thesis
  proof (cases a)
    case (Inl e)
    with assms Some show ?thesis by (auto simp: UpdateDocument_def)
  next
    case (Inr cs)
    obtain old' news upd where
      d: "diff_loop cs (filter (\<lambda>chunk. Path (Document chunk) = Path doc) (Chunks g)) [] False =
            (old', news, upd)"
      by (metis prod_cases3)
    obtain rq res where c: "CreateEmbeddings env news = (rq, res)" by (metis surj_pair)
    show ?thesis
    proof (cases res)
      case (Inl e)
      with assms Some Inr d c show ?thesis by (auto simp: UpdateDocument_def)
    next
      case (Inr embs)
      with assms Some \<open>a = Inr cs\<close> d c show ?thesis
        by (auto simp: UpdateDocument_def appendChunks_zip split: if_splits)
    qed
  qed
qed

text \<open>
  Claim C4. After an UpdateDocument of a document that returned without error, a second
  UpdateDocument of the same document, its file and the maximum chunk size unchanged,
  returns: it sends nothing to the embedding client, leaves the store as it was, chunk
  list included, and reports that nothing was updated.
\<close>

theorem UpdateDocument_unchanged_noop:
  assumes "UpdateDocument env g doc = Some (g1, reqs1, Inr u1)"
  shows "UpdateDocument env g1 doc = Some (g1, [], Inr False)"
proof -
  let ?P = "\<lambda>chunk. Path (Document chunk) = Path doc"
  let ?mk = "\<lambda>(t, e). \<lparr>Document = doc, Text = t, Embedding = e\<rparr>"
  from UpdateDocument_cases[OF assms] obtain cs old' news upd embs where
    cs: "chunkStrings env g doc = Some (Inr cs)"
    and d: "diff_loop cs (filter ?P (Chunks g)) [] False = (old', news, upd)"
    and g1: "g1 = g\<lparr>Chunks := Chunks g @ map ?mk (zip news embs)\<rparr>"
    and len: "\<not> length embs < length news"
    by (auto split: if_splits)
  have cs1: "chunkStrings env g1 doc = Some (Inr cs)"
    using cs chunkStrings_cong[of g1 g env doc] g1 by simp
  have f: "filter ?P (map ?mk (zip news embs)) = map ?mk (zip news embs)"
    by (auto simp: filter_id_conv)
  have old1: "filter ?P (Chunks g1) = filter ?P (Chunks g) @ map ?mk (zip news embs)"
    using g1 f by simp
  have "map Text (map ?mk (zip news embs)) = map fst (zip news embs)"
    by (auto simp: comp_def)
  also have "\<dots> = news" using len by (simp add: map_fst_zip_take)
  finally have t: "map Text (map ?mk (zip news embs)) = news" .
  from diff_loop_covers[OF d] have "mset cs \<subseteq># mset (map Text (filter ?P (Chunks g))) + mset news"
    by simp
  then have "mset cs \<subseteq># mset (map Text (filter ?P (Chunks g1)))"
    unfolding old1 using t by (simp only: map_append mset_append)
  from diff_loop_nothing_new[OF this, of "[]" False] obtain old'' where
    d1: "diff_loop cs (filter ?P (Chunks g1)) [] False = (old'', [], False)" by blast
  show ?thesis
    using cs1 d1 by (simp add: UpdateDocument_def CreateEmbeddings_Nil)
qed

lemmas eval_defs = AddDocument_def UpdateDocument_def chunkStrings_def splitParagraph.simps
  CreateEmbeddings_def CreateEmbeddings_loop.simps em_len_def Let_def doc_a_def doc_b_def
  RemoveDocument_def GC_def

lemma UpdateDocument_two_first:
  "UpdateDocument env_two (g_two\<lparr>Chunks := []\<rparr>) doc_a = Some (g_two, [[''one'', ''three'']], Inr True)"
  by (simp add: eval_defs env_two_def g_two_def)

theorem UpdateDocument_unchanged_noop_witness:
  "UpdateDocument env_two (g_two\<lparr>Chunks := []\<rparr>) doc_a = Some (g_two, [[''one'', ''three'']], Inr True) \<and>
   UpdateDocument env_two g_two doc_a = Some (g_two, [], Inr False)"
  using UpdateDocument_unchanged_noop [OF UpdateDocument_two_first] UpdateDocument_two_first
  by simp

section \<open>The deduplication invariant\<close>

lemma dedup_inv_Documents [simp]: "dedup_inv (g\<lparr>Documents := ds\<rparr>) = dedup_inv g"
  by (simp add: dedup_inv_def)

lemma dedup_inv_RemoveDocument: "dedup_inv g \<Longrightarrow> dedup_inv (RemoveDocument g d)"
  by (simp add: RemoveDocument_def split: option.splits)

lemma GC_loop_is_filter:
  "GC_loop docs chunks acc = acc @ filter (referenced docs) chunks"
  by (induction chunks arbitrary: acc) simp_all

lemma dedup_inv_GC: "dedup_inv g \<Longrightarrow> dedup_inv (GC g)"
proof -
  assume a: "dedup_inv g"
  have "distinct (map Text (filter (\<lambda>c. Path (Document c) = p) (filter (referenced (Documents g)) (Chunks g))))" for p
  proof -
    have e: "filter (\<lambda>c. Path (Document c) = p) (filter (referenced (Documents g)) (Chunks g)) =
          filter (referenced (Documents g)) (filter (\<lambda>c. Path (Document c) = p) (Chunks g))"
      by (auto simp: filter_filter intro: filter_cong)
    have "distinct (map Text (filter (\<lambda>c. Path (Document c) = p) (Chunks g)))"
      using a by (simp add: dedup_inv_def)
    then have "distinct (map Text (filter (referenced (Documents g))
                 (filter (\<lambda>c. Path (Document c) = p) (Chunks g))))"
      by (rule distinct_map_filter)
    then show ?thesis unfolding e .
  qed
  then show ?thesis by (simp add: dedup_inv_def GC_def GC_loop_is_filter)
qed

lemma dedup_inv_UpdateDocument:
  assumes inv: "dedup_inv g"
    and u: "UpdateDocument env g doc = Some (g', reqs, r)"
    and dist: "\<And>cs. chunkStrings env g doc = Some (Inr cs) \<Longrightarrow> distinct cs"
  shows "dedup_inv g'"
proof -
  let ?P = "\<lambda>chunk. Path (Document chunk) = Path doc"
  let ?mk = "\<lambda>(t, e). \<lparr>Document = doc, Text = t, Embedding = e\<rparr>"
  from UpdateDocument_cases[OF u] show ?thesis
  proof (elim disjE exE conjE)
    assume "g' = g"
    then show ?thesis using inv by simp
  next
    fix cs old' news upd embs
    assume cs: "chunkStrings env g doc = Some (Inr cs)"
      and d: "diff_loop cs (filter ?P (Chunks g)) [] False = (old', news, upd)"
      and g': "g' = g\<lparr>Chunks := Chunks g @ map ?mk (zip news embs)\<rparr>"
    have dcs: "distinct cs" by (rule dist[OF cs])
    have news: "news = filter (\<lambda>s. s \<notin> Text ` set (filter ?P (Chunks g))) cs"
      using diff_loop_distinct[OF dcs, of "filter ?P (Chunks g)" "[]" False] d by simp
    have t: "map Text (map ?mk (zip news embs)) = take (length embs) news"
    proof -
      have "map Text (map ?mk (zip news embs)) = map fst (zip news embs)"
        by (auto simp: comp_def)
      also have "\<dots> = take (length embs) news"
        by (cases "length news \<le> length embs") (simp_all add: map_fst_zip_take min_def)
      finally show ?thesis .
    qed
    have dn: "distinct news" using dcs news by simp
    have disj: "set news \<inter> Text ` set (filter ?P (Chunks g)) = {}"
      using news by auto
    have "distinct (map Text (filter (\<lambda>c. Path (Document c) = p) (Chunks g')))" for p
    proof (cases "p = Path doc")
      case True
      have f: "filter ?P (map ?mk (zip news embs)) = map ?mk (zip news embs)"
        by (auto simp: filter_id_conv)
      have "map Text (filter ?P (Chunks g')) =
            map Text (filter ?P (Chunks g)) @ take (length embs) news"
        using g' f t by simp
      moreover have "distinct (map Text (filter ?P (Chunks g)))"
        using inv by (simp add: dedup_inv_def)
      moreover have "distinct (take (length embs) news)" using dn by simp
      moreover have "set (take (length embs) news) \<inter> Text ` set (filter ?P (Chunks g)) = {}"
        using disj set_take_subset[of "length embs" news] by blast
      ultimately show ?thesis using True by (simp add: Int_commute)
    next
      case False
      then have "filter (\<lambda>c. Path (Document c) = p) (map ?mk (zip news embs)) = []"
        by (auto simp: filter_empty_conv)
      then have "filter (\<lambda>c. Path (Document c) = p) (Chunks g') =
                 filter (\<lambda>c. Path (Document c) = p) (Chunks g)"
        using g' by simp
      then show ?thesis using inv by (simp add: dedup_inv_def)
    qed
    then show ?thesis by (simp add: dedup_inv_def)
  qed
qed

lemma dedup_inv_apply_op:
  assumes inv: "dedup_inv g"
    and sd: "segments_distinct env g opn"
    and ap: "apply_op env g opn = Some g'"
  shows "dedup_inv g'"
proof (cases opn)
  case (OpAddDocument path)
  let ?doc = "\<lparr>Path = path\<rparr>"
  let ?g1 = "case findPath (Path ?doc) (Documents g) 0 of
               None \<Rightarrow> g\<lparr>Documents := Documents g @ [?doc]\<rparr> | Some i \<Rightarrow> g"
  have m: "MaxChunkSize ?g1 = MaxChunkSize g" by (simp split: option.splits)
  have i1: "dedup_inv ?g1" using inv by (simp split: option.splits)
  from ap OpAddDocument obtain reqs r where u: "UpdateDocument env ?g1 ?doc = Some (g', reqs, r)"
    by (auto simp: AddDocument_def Let_def split: option.splits sum.splits)
  have "distinct cs" if "chunkStrings env ?g1 ?doc = Some (Inr cs)" for cs
  proof -
    from that have "chunkStrings env g ?doc = Some (Inr cs)"
      using chunkStrings_cong[OF m, of env ?doc] by simp
    with sd OpAddDocument show ?thesis by (simp add: segments_distinct_def)
  qed
  from dedup_inv_UpdateDocument[OF i1 u this] show ?thesis .
next
  case (OpUpdateDocument doc)
  from ap OpUpdateDocument obtain reqs r where u: "UpdateDocument env g doc = Some (g', reqs, r)"
    by auto
  have "distinct cs" if "chunkStrings env g doc = Some (Inr cs)" for cs
    using sd OpUpdateDocument that by (simp add: segments_distinct_def)
  from dedup_inv_UpdateDocument[OF inv u this] show ?thesis .
next
  case (OpRemoveDocument doc)
  with ap inv show ?thesis by (auto simp: dedup_inv_RemoveDocument)
next
  case OpGC
  with ap inv show ?thesis by (auto simp: dedup_inv_GC)
qed

text \<open>
  Claim C3, amended. From a store in which the chunks of each document path have
  distinct texts, as in a new store, every sequence of AddDocument, UpdateDocument,
  RemoveDocument and GC that returns leaves such a store, provided that no update in
  it chunks its document into a list with a repeated segment.
\<close>

theorem dedup_inv_run_ops:
  "dedup_inv g \<Longrightarrow> segments_ok g steps \<Longrightarrow> run_ops g steps = Some g' \<Longrightarrow> dedup_inv g'"
proof (induction steps arbitrary: g)
  case Nil
  then show ?case by simp
next
  case (Cons step steps)
  obtain env opn where step: "step = (env, opn)" by (cases step)
  from Cons.prems(3) step obtain g1 where
    a: "apply_op env g opn = Some g1" and r: "run_ops g1 steps = Some g'"
    by (auto split: option.splits)
  from Cons.prems(2) step a have sd: "segments_distinct env g opn" and ok: "segments_ok g1 steps"
    by simp_all
  have "dedup_inv g1" by (rule dedup_inv_apply_op[OF Cons.prems(1) sd a])
  from Cons.IH[OF this ok r] show ?case .
qed

lemma dedup_inv_New: "dedup_inv (New cpt)"
  by (simp add: dedup_inv_def New_def)

lemma run_ops_two: "run_ops (New (7 / 2)) steps_two = Some g_two"
  by (simp add: steps_two_def eval_defs env_two_def g_two_def New_def)

lemma segments_ok_two: "segments_ok (New (7 / 2)) steps_two"
  by (simp add: steps_two_def segments_distinct_def eval_defs env_two_def g_two_def New_def)

theorem dedup_inv_run_ops_witness:
  "dedup_inv (New (7 / 2 :: real)) \<and> segments_ok (New (7 / 2)) steps_two \<and>
   run_ops (New (7 / 2)) steps_two = Some g_two \<and> dedup_inv g_two"
  using dedup_inv_run_ops [OF dedup_inv_New segments_ok_two run_ops_two]
    dedup_inv_New segments_ok_two run_ops_two
  by simp

text \<open>
  Claim C3 as stated fails on a file with two equal paragraphs: added to a new store,
  it gets two chunks of the same text, one for each paragraph.
\<close>

theorem dedup_inv_repeated_paragraph_counterexample:
  "dedup_inv (New (7 / 2 :: real)) \<and>
   run_ops (New (7 / 2)) [(env_twice, OpAddDocument ''a.txt'')] = Some g_twice \<and>
   map (\<lambda>c. (Path (Document c), Text c)) (Chunks g_twice) =
     [(''a.txt'', ''same''), (''a.txt'', ''same'')] \<and>
   \<not> dedup_inv g_twice"
proof -
  have r: "run_ops (New (7 / 2)) [(env_twice, OpAddDocument ''a.txt'')] = Some g_twice"
    by (simp add: eval_defs env_twice_def g_twice_def New_def)
  have m: "map (\<lambda>c. (Path (Document c), Text c)) (Chunks g_twice) =
     [(''a.txt'', ''same''), (''a.txt'', ''same'')]"
    by (simp add: g_twice_def doc_a_def)
  have "\<not> distinct (map Text (filter (\<lambda>c. Path (Document c) = ''a.txt'') (Chunks g_twice)))"
    by (simp add: g_twice_def doc_a_def)
  then have n: "\<not> dedup_inv g_twice" unfolding dedup_inv_def by blast
  show ?thesis using r m n by (simp add: dedup_inv_New)
qed

end
